theory Spec2Isabelle
  imports Complex_Main "HOL-Library.Word"
begin

section \<open>Query parameters of /burn\<close>

text \<open>
  Go's \<open>int\<close> is taken as 64 bits wide (the build targets linux on a 64-bit
  platform). Values of that type are modelled as HOL integers in the range
  \<open>- 2^63 .. 2^63 - 1\<close>; the one place where the source's arithmetic can leave that
  range, the conversion of seconds into a \<open>time.Duration\<close>, is modelled on
  64-bit words.
\<close>

definition is_digit :: "char \<Rightarrow> bool" where
  "is_digit c = (48 \<le> (of_char c :: nat) \<and> (of_char c :: nat) \<le> 57)"

text \<open>The digit loop of the parser: \<open>n = n*10 + (ch - '0')\<close>.\<close>

fun digits_val :: "nat \<Rightarrow> string \<Rightarrow> nat" where
  "digits_val n [] = n"
| "digits_val n (c # cs) = digits_val (n * 10 + (of_char c - 48)) cs"

text \<open>
  \<open>strconv.Atoi\<close> of the Go standard library (base 10, bit size of \<open>int\<close>): an
  optional sign \<open>+\<close> or \<open>-\<close>, then at least one decimal digit and nothing else; a
  value outside the range of \<open>int\<close> is an error. \<open>None\<close> stands for \<open>err != nil\<close>.
\<close>

definition Atoi :: "string \<Rightarrow> int option" where
  "Atoi s =
     (if s = [] then None
      else
        let neg = (hd s = CHR ''-'');
            ds = (if hd s = CHR ''-'' \<or> hd s = CHR ''+'' then tl s else s)
        in if ds = [] \<or> \<not> list_all is_digit ds then None
           else
             let v = (if neg then - int (digits_val 0 ds) else int (digits_val 0 ds))
             in if - (2 ^ 63) \<le> v \<and> v < 2 ^ 63 then Some v else None)"

text \<open>The decimal numeral of a natural number, as \<open>strconv.Itoa\<close> prints it.\<close>

fun decimal :: "nat \<Rightarrow> string" where
  "decimal n =
     (if n < 10 then [char_of (48 + n)] else decimal (n div 10) @ [char_of (48 + n mod 10)])"

declare decimal.simps [simp del]

definition atoiDefault :: "string \<Rightarrow> int \<Rightarrow> int" where
  "atoiDefault s d = (case Atoi s of Some v \<Rightarrow> v | None \<Rightarrow> d)"

text \<open>
  \<open>url.Values\<close> is \<open>map[string][]string\<close>; \<open>Get\<close> returns the first value of the
  key, or the empty string when the key is absent or has no value.
\<close>

type_synonym url_values = "string \<Rightarrow> string list option"

definition Get :: "url_values \<Rightarrow> string \<Rightarrow> string" where
  "Get q k = (case q k of None \<Rightarrow> [] | Some [] \<Rightarrow> [] | Some (v # _) \<Rightarrow> v)"

record load_request =
  seconds :: int
  workers :: int
  memMB :: int

text \<open>
  The first block of \<open>BurnHandler\<close>: the three parameters are read, defaulted and
  clamped one after the other. \<open>numCPU\<close> is the value of \<open>runtime.NumCPU()\<close>.
\<close>

definition resolve_params :: "int \<Rightarrow> url_values \<Rightarrow> load_request" where
  "resolve_params numCPU q =
     (let seconds0 = atoiDefault (Get q ''seconds'') 20;
          seconds1 = (if seconds0 < 1 then 1 else seconds0);
          workers0 = atoiDefault (Get q ''workers'') numCPU;
          workers1 = (if workers0 < 1 then 1 else workers0);
          memMB0 = atoiDefault (Get q ''mem_mb'') 0;
          memMB1 = (if memMB0 < 0 then 0 else memMB0)
      in \<lparr>seconds = seconds1, workers = workers1, memMB = memMB1\<rparr>)"

text \<open>
  \<open>time.Duration(seconds) * time.Second\<close>: \<open>Duration\<close> is \<open>int64\<close>, \<open>time.Second\<close>
  is \<open>1000000000\<close>, and the product of two \<open>int64\<close> wraps modulo \<open>2^64\<close>. The
  result is the signed reading of the 64-bit product, in nanoseconds.
\<close>

definition timeout_ns :: "int \<Rightarrow> int" where
  "timeout_ns secs = sint ((word_of_int secs :: 64 word) * 1000000000)"

text \<open>The query of a request, written as the pairs of its query string.\<close>

definition query_of :: "(string \<times> string) list \<Rightarrow> url_values" where
  "query_of kvs k =
     (if k \<in> set (map fst kvs) then Some (map snd (filter (\<lambda>p. fst p = k) kvs)) else None)"

section \<open>Memory pressure\<close>

text \<open>
  A block is the byte slice \<open>b\<close> together with the offsets stored to, in the order of
  the stores. The log is needed to speak about the stores at all: \<open>byte(j)\<close> is \<open>0\<close>
  at every multiple of 4096, the value the fresh slice already holds there.
\<close>

record block =
  bytes :: "8 word list"
  written :: "nat list"

text \<open>\<open>make([]byte, n)\<close>: \<open>n\<close> zero bytes.\<close>

definition make_bytes :: "nat \<Rightarrow> block" where
  "make_bytes n = \<lparr>bytes = replicate n 0, written = []\<rparr>"

text \<open>\<open>for j := 0; j < len(b); j += 4096 { b[j] = byte(j) }\<close>, from counter \<open>j\<close>.\<close>

function touch_loop :: "nat \<Rightarrow> block \<Rightarrow> block" where
  "touch_loop j b =
     (if j < length (bytes b)
      then touch_loop (j + 4096)
             (b\<lparr>bytes := (bytes b)[j := of_nat j], written := written b @ [j]\<rparr>)
      else b)"
  by pat_completeness auto
termination
  by (relation "measure (\<lambda>(j, b). length (bytes b) - j)") auto

declare touch_loop.simps [simp del]

text \<open>\<open>for i := 0; i < memMB; i++ { ...; junk = append(junk, b) }\<close>, from counter \<open>i\<close>.\<close>

function alloc_loop :: "int \<Rightarrow> int \<Rightarrow> block list \<Rightarrow> block list" where
  "alloc_loop i n junk =
     (if i < n
      then alloc_loop (i + 1) n (junk @ [touch_loop 0 (make_bytes (1024 * 1024))])
      else junk)"
  by pat_completeness auto
termination
  by (relation "measure (\<lambda>(i, n, junk). nat (n - i))") auto

declare alloc_loop.simps [simp del]

section \<open>The response writer\<close>

text \<open>
  \<open>http.ResponseWriter\<close>: the header map, the status line once it has been sent
  together with the headers that went out with it, and the body written so far.
  \<open>Write\<close> sends status 200 first when no status has been sent.
\<close>

record response_writer =
  hdr :: "string \<Rightarrow> string option"
  status :: "nat option"
  sent_hdr :: "string \<Rightarrow> string option"
  body :: string

definition Header_Set :: "response_writer \<Rightarrow> string \<Rightarrow> string \<Rightarrow> response_writer" where
  "Header_Set w k v = w\<lparr>hdr := (hdr w)(k \<mapsto> v)\<rparr>"

definition WriteHeader :: "response_writer \<Rightarrow> nat \<Rightarrow> response_writer" where
  "WriteHeader w code =
     (if status w = None then w\<lparr>status := Some code, sent_hdr := hdr w\<rparr> else w)"

definition Write :: "response_writer \<Rightarrow> string \<Rightarrow> response_writer" where
  "Write w bs = (let w' = WriteHeader w 200 in w'\<lparr>body := body w' @ bs\<rparr>)"

definition new_writer :: response_writer where
  "new_writer = \<lparr>hdr = Map.empty, status = None, sent_hdr = Map.empty, body = []\<rparr>"

definition ok_body :: string where
  "ok_body = ''{'' @ [CHR 0x22] @ ''ok'' @ [CHR 0x22] @ '':true}''"

section \<open>The worker pool of /burn\<close>

text \<open>
  The body of a worker's \<open>default\<close> branch. \<open>float64\<close> is modelled by the reals:
  rounding is left out.
\<close>

definition spin :: "real \<Rightarrow> real" where
  "spin x = (let x' = x + sqrt x in if x' > 1000000000 then 1 / 10000 else x')"

text \<open>
  A worker goroutine is at the head of its loop with the current \<open>x\<close>, or blocked in
  \<open>done <- struct{}{}\<close>, or has returned.
\<close>

datatype task = Running real | Sending | Completed

text \<open>
  The handler is in its spawn loop or in its wait loop, each with the loop counter,
  or has written the response and returned.
\<close>

datatype handler_pc = Spawning int | Waiting int | Returned

text \<open>
  The state of one request after the context has been created. Time is counted in
  nanoseconds from the call of \<open>context.WithTimeout\<close>, so \<open>deadline\<close> is the timeout
  itself. \<open>parent_done\<close>: the request's own context has been cancelled;
  \<open>ctx_cancelled\<close>: the deferred \<open>cancel()\<close> has run.
\<close>

record burn_state =
  req :: load_request
  junk :: "block list"
  now :: int
  deadline :: int
  parent_done :: bool
  ctx_cancelled :: bool
  pc :: handler_pc
  tasks :: "task list"
  rw :: response_writer

text \<open>
  \<open>ctx.Done()\<close> is closed: a receive from it does not block. The channel is taken to
  close at the deadline itself, without delay of the timer.
\<close>

definition ctx_done :: "burn_state \<Rightarrow> bool" where
  "ctx_done s = (parent_done s \<or> ctx_cancelled s \<or> deadline s \<le> now s)"

text \<open>
  \<open>BurnHandler\<close> up to and including \<open>context.WithTimeout\<close>: parameters, memory
  blocks, context. No goroutine exists yet.
\<close>

definition burn_init :: "int \<Rightarrow> url_values \<Rightarrow> response_writer \<Rightarrow> burn_state" where
  "burn_init numCPU q w =
     (let r = resolve_params numCPU q
      in \<lparr>req = r, junk = alloc_loop 0 (memMB r) [], now = 0,
          deadline = timeout_ns (seconds r), parent_done = False, ctx_cancelled = False,
          pc = Spawning 0, tasks = [], rw = w\<rparr>)"

text \<open>
  What can happen next: the handler runs to its next statement; worker \<open>k\<close> runs one
  iteration of its loop; the handler's \<open><-done\<close> meets the send of worker \<open>k\<close> (the
  channel is unbuffered); time passes; the request's context is cancelled.
\<close>

datatype event = Handler | Worker nat | Rendezvous nat | Tick nat | Cancel

fun step :: "burn_state \<Rightarrow> event \<Rightarrow> burn_state option" where
  "step s Handler =
     (case pc s of
        Spawning i \<Rightarrow>
          if i < workers (req s)
          then Some (s\<lparr>tasks := tasks s @ [Running (1 / 10000)], pc := Spawning (i + 1)\<rparr>)
          else Some (s\<lparr>pc := Waiting 0\<rparr>)
      | Waiting i \<Rightarrow>
          if i < workers (req s) then None
          else Some (s\<lparr>rw := Write (Header_Set (rw s) ''Content-Type'' ''application/json'')
                              ok_body,
                       ctx_cancelled := True, pc := Returned\<rparr>)
      | Returned \<Rightarrow> None)"
| "step s (Worker k) =
     (if k < length (tasks s)
      then (case tasks s ! k of
              Running x \<Rightarrow>
                Some (s\<lparr>tasks := (tasks s)[k := (if ctx_done s then Sending
                                                  else Running (spin x))]\<rparr>)
            | Sending \<Rightarrow> None
            | Completed \<Rightarrow> None)
      else None)"
| "step s (Rendezvous k) =
     (case pc s of
        Waiting i \<Rightarrow>
          if i < workers (req s) \<and> k < length (tasks s) \<and> tasks s ! k = Sending
          then Some (s\<lparr>tasks := (tasks s)[k := Completed], pc := Waiting (i + 1)\<rparr>)
          else None
      | Spawning i \<Rightarrow> None
      | Returned \<Rightarrow> None)"
| "step s (Tick d) = Some (s\<lparr>now := now s + int d\<rparr>)"
| "step s Cancel = Some (s\<lparr>parent_done := True\<rparr>)"

text \<open>A schedule is run from a state; \<open>None\<close> when an event is not enabled.\<close>

fun exec :: "burn_state \<Rightarrow> event list \<Rightarrow> burn_state option" where
  "exec s [] = Some s"
| "exec s (e # es) = (case step s e of None \<Rightarrow> None | Some s' \<Rightarrow> exec s' es)"

definition is_rendezvous :: "event \<Rightarrow> bool" where
  "is_rendezvous e = (case e of Rendezvous k \<Rightarrow> True | _ \<Rightarrow> False)"

definition completed :: "task list \<Rightarrow> nat" where
  "completed ts = length (filter (\<lambda>t. t = Completed) ts)"

text \<open>
  What the two loops of the handler maintain; \<open>n\<close> is the number of rendezvous so far.
\<close>

definition handler_inv :: "burn_state \<Rightarrow> nat \<Rightarrow> bool" where
  "handler_inv s n =
     (case pc s of
        Spawning i \<Rightarrow>
          0 \<le> i \<and> i \<le> workers (req s) \<and> length (tasks s) = nat i \<and> n = 0 \<and>
          completed (tasks s) = 0
      | Waiting i \<Rightarrow>
          0 \<le> i \<and> i \<le> workers (req s) \<and> length (tasks s) = nat (workers (req s)) \<and>
          n = nat i \<and> completed (tasks s) = nat i
      | Returned \<Rightarrow>
          length (tasks s) = nat (workers (req s)) \<and> n = nat (workers (req s)) \<and>
          completed (tasks s) = nat (workers (req s)))"

text \<open>
  What holds of worker \<open>k\<close>; \<open>m\<close> is the number of its rendezvous so far.
\<close>

definition task_inv :: "nat \<Rightarrow> burn_state \<Rightarrow> nat \<Rightarrow> bool" where
  "task_inv k s m =
     (if k < length (tasks s)
      then (case tasks s ! k of
              Running x \<Rightarrow> m = 0
            | Sending \<Rightarrow> m = 0 \<and> ctx_done s
            | Completed \<Rightarrow> m = 1 \<and> ctx_done s)
      else m = 0)"

text \<open>
  The writer is untouched until the handler returns, and then holds the one response.
\<close>

definition writer_inv :: "response_writer \<Rightarrow> burn_state \<Rightarrow> bool" where
  "writer_inv w s =
     (case pc s of
        Returned \<Rightarrow>
          rw s = Write (Header_Set w ''Content-Type'' ''application/json'') ok_body
      | Spawning i \<Rightarrow> rw s = w
      | Waiting i \<Rightarrow> rw s = w)"

text \<open>Every running worker holds a value of the recurrence started at \<open>0.0001\<close>.\<close>

definition spin_value :: "real \<Rightarrow> bool" where
  "spin_value x = (\<exists>n. x = (spin ^^ n) (1 / 10000))"

definition task_ok :: "task \<Rightarrow> bool" where
  "task_ok t = (case t of Running x \<Rightarrow> spin_value x | Sending \<Rightarrow> True | Completed \<Rightarrow> True)"

definition spin_inv :: "burn_state \<Rightarrow> bool" where
  "spin_inv s = (\<forall>t \<in> set (tasks s). task_ok t)"

section \<open>The list handlers\<close>

text \<open>
  The Redis master as one client sees it: the list stored under each key (a missing
  key is the empty list), and for each coming command whether it fails (\<open>True\<close>: the
  command returns an error; no entry left: it succeeds).
\<close>

record redis =
  lists :: "string \<Rightarrow> string list"
  faults :: "bool list"

datatype error = RedisError

text \<open>\<open>list.Add(value)\<close>: \<open>RPUSH key value\<close>.\<close>

definition List_Add :: "redis \<Rightarrow> string \<Rightarrow> string \<Rightarrow> error option \<times> redis" where
  "List_Add r key v =
     (case faults r of
        True # fs \<Rightarrow> (Some RedisError, r\<lparr>faults := fs\<rparr>)
      | False # fs \<Rightarrow> (None, r\<lparr>lists := (lists r)(key := lists r key @ [v]), faults := fs\<rparr>)
      | [] \<Rightarrow> (None, r\<lparr>lists := (lists r)(key := lists r key @ [v])\<rparr>))"

text \<open>\<open>list.GetAll()\<close>: \<open>LRANGE key 0 -1\<close>.\<close>

definition List_GetAll :: "redis \<Rightarrow> string \<Rightarrow> (error + string list) \<times> redis" where
  "List_GetAll r key =
     (case faults r of
        True # fs \<Rightarrow> (Inl RedisError, r\<lparr>faults := fs\<rparr>)
      | False # fs \<Rightarrow> (Inr (lists r key), r\<lparr>faults := fs\<rparr>)
      | [] \<Rightarrow> (Inr (lists r key), r))"

fun join_lines :: "string list \<Rightarrow> string" where
  "join_lines [] = []"
| "join_lines [x] = x"
| "join_lines (x # y # ys) = x @ '','' @ [CHR 0x0A] @ join_lines (y # ys)"

text \<open>
  \<open>json.MarshalIndent(members, "", "  ")\<close> on a non-nil \<open>[]string\<close>: one element per
  line, indented by two spaces, between brackets on lines of their own; \<open>[]\<close> for the
  empty slice. \<open>quote\<close> is the encoding of one string as a JSON string literal.
\<close>

definition MarshalIndent :: "(string \<Rightarrow> string) \<Rightarrow> string list \<Rightarrow> string" where
  "MarshalIndent quote members =
     (if members = [] then ''[]''
      else ''['' @ [CHR 0x0A] @ join_lines (map (\<lambda>m. ''  '' @ quote m) members)
           @ [CHR 0x0A] @ '']'')"

text \<open>
  The handlers return the writer and the store; \<open>Inl\<close> is the panic of \<open>HandleError\<close>,
  raised before anything is written.
\<close>

definition ListRangeHandler ::
  "(string \<Rightarrow> string) \<Rightarrow> redis \<Rightarrow> response_writer \<Rightarrow> string
     \<Rightarrow> (error + response_writer) \<times> redis" where
  "ListRangeHandler quote r w key =
     (case List_GetAll r key of
        (Inl e, r') \<Rightarrow> (Inl e, r')
      | (Inr members, r') \<Rightarrow>
          (Inr (Write (Header_Set w ''Content-Type'' ''application/json'')
                  (MarshalIndent quote members)), r'))"

definition ListPushHandler ::
  "(string \<Rightarrow> string) \<Rightarrow> redis \<Rightarrow> response_writer \<Rightarrow> string \<Rightarrow> string
     \<Rightarrow> (error + response_writer) \<times> redis" where
  "ListPushHandler quote r w key v =
     (case List_Add r key v of
        (Some e, r') \<Rightarrow> (Inl e, r')
      | (None, r') \<Rightarrow> ListRangeHandler quote r' w key)"

section \<open>The parser accepts the decimal numerals\<close>

lemma digits_val_append: "digits_val a (xs @ ys) = digits_val (digits_val a xs) ys"
  by (induction xs arbitrary: a) simp_all

lemma of_char_digit: "d < 10 \<Longrightarrow> (of_char (char_of (48 + d :: nat)) :: nat) = 48 + d"
  by simp

lemma digits_val_decimal: "digits_val 0 (decimal n) = n"
proof (induction n rule: decimal.induct)
  case (1 n)
  show ?case
  proof (cases "n < 10")
    case True
    then show ?thesis
      by (subst decimal.simps) (simp add: of_char_digit)
  next
    case False
    have "n mod 10 < 10" by simp
    then have c: "(of_char (char_of (48 + n mod 10)) :: nat) = 48 + n mod 10"
      by (rule of_char_digit)
    from False "1.IH" have "digits_val 0 (decimal (n div 10)) = n div 10" by simp
    with False c show ?thesis
      by (subst decimal.simps) (simp add: digits_val_append)
  qed
qed

lemma decimal_digits: "decimal n \<noteq> [] \<and> list_all is_digit (decimal n)"
proof (induction n rule: decimal.induct)
  case (1 n)
  show ?case
  proof (cases "n < 10")
    case True
    then show ?thesis
      by (subst (1 2) decimal.simps) (simp add: is_digit_def of_char_digit)
  next
    case False
    have "n mod 10 < 10" by simp
    then have c: "(of_char (char_of (48 + n mod 10)) :: nat) = 48 + n mod 10"
      by (rule of_char_digit)
    from False "1.IH" have "list_all is_digit (decimal (n div 10))" by simp
    with False c show ?thesis
      by (subst (1 2) decimal.simps) (simp add: is_digit_def)
  qed
qed

lemma digit_not_sign: "is_digit c \<Longrightarrow> c \<noteq> CHR ''-'' \<and> c \<noteq> CHR ''+''"
  by (auto simp: is_digit_def)

lemma hd_decimal_not_sign: "hd (decimal n) \<noteq> CHR ''-'' \<and> hd (decimal n) \<noteq> CHR ''+''"
proof -
  from decimal_digits [of n] have "is_digit (hd (decimal n))"
    by (cases "decimal n") simp_all
  then show ?thesis by (rule digit_not_sign)
qed

lemma Atoi_decimal: "n < 2 ^ 63 \<Longrightarrow> Atoi (decimal n) = Some (int n)"
  using decimal_digits [of n] hd_decimal_not_sign [of n]
  by (simp add: Atoi_def Let_def digits_val_decimal)

lemma Atoi_minus_decimal: "n \<le> 2 ^ 63 \<Longrightarrow> Atoi (CHR ''-'' # decimal n) = Some (- int n)"
  using decimal_digits [of n]
  by (simp add: Atoi_def Let_def digits_val_decimal)

lemma Atoi_range: "Atoi s = Some v \<Longrightarrow> - (2 ^ 63) \<le> v \<and> v < 2 ^ 63"
  by (auto simp: Atoi_def Let_def split: if_splits)

section \<open>Parameters: defaults, clamps, and the timeout\<close>

lemma Atoi_empty: "Atoi [] = None"
  by (simp add: Atoi_def)

lemma Get_absent: "q k = None \<Longrightarrow> Get q k = []"
  by (simp add: Get_def)

lemma timeout_ns_alt: "timeout_ns s = signed_take_bit 63 (s * 1000000000)"
proof -
  have "(word_of_int s :: 64 word) * 1000000000 = word_of_int (s * 1000000000)"
    by simp
  then show ?thesis
    unfolding timeout_ns_def by (simp only: sint_sbintrunc') simp
qed

lemma timeout_ns_exact_iff:
  "timeout_ns s = s * 1000000000 \<longleftrightarrow>
     - (2 ^ 63) \<le> s * 1000000000 \<and> s * 1000000000 < 2 ^ 63"
  unfolding timeout_ns_alt by (simp only: signed_take_bit_int_eq_self_iff)

text \<open>
  A numeral outside the range of \<open>int\<close> is an error of \<open>Atoi\<close> like any other, so
  the default is used for it.
\<close>

lemma resolve_params_out_of_range:
  "seconds (resolve_params numCPU (query_of [(''seconds'', ''9223372036854775808'')])) = 20"
  by (simp add: resolve_params_def query_of_def Get_def atoiDefault_def Atoi_def is_digit_def)

text \<open>
  C2. Each of the three parameters is its default when the query value is absent or
  \<open>Atoi\<close> fails on it (20, the processor count, 0), the parsed value otherwise, and is
  then raised to its lower bound (1, 1, 0). The processor count is at least 1 on every
  machine, so the clamp leaves that default as it is.
\<close>

theorem resolve_params_spec:
  "seconds (resolve_params numCPU q) =
     (case Atoi (Get q ''seconds'') of None \<Rightarrow> 20 | Some v \<Rightarrow> if v < 1 then 1 else v) \<and>
   workers (resolve_params numCPU q) =
     (case Atoi (Get q ''workers'') of None \<Rightarrow> if numCPU < 1 then 1 else numCPU
      | Some v \<Rightarrow> if v < 1 then 1 else v) \<and>
   memMB (resolve_params numCPU q) =
     (case Atoi (Get q ''mem_mb'') of None \<Rightarrow> 0 | Some v \<Rightarrow> if v < 0 then 0 else v) \<and>
   (q ''seconds'' = None \<longrightarrow> seconds (resolve_params numCPU q) = 20) \<and>
   (q ''workers'' = None \<and> 1 \<le> numCPU \<longrightarrow> workers (resolve_params numCPU q) = numCPU) \<and>
   (q ''mem_mb'' = None \<longrightarrow> memMB (resolve_params numCPU q) = 0) \<and>
   (Atoi (Get q ''workers'') = None \<and> 1 \<le> numCPU \<longrightarrow>
      workers (resolve_params numCPU q) = numCPU)"
  by (simp add: resolve_params_def atoiDefault_def Let_def Get_absent Atoi_empty
      split: option.split)

theorem resolve_params_spec_witness:
  "seconds (resolve_params 4 (query_of [(''seconds'', ''abc''), (''mem_mb'', ''-7'')])) = 20 \<and>
   workers (resolve_params 4 (query_of [(''seconds'', ''abc''), (''mem_mb'', ''-7'')])) = 4 \<and>
   memMB (resolve_params 4 (query_of [(''seconds'', ''abc''), (''mem_mb'', ''-7'')])) = 0"
  using resolve_params_spec [of 4 "query_of [(''seconds'', ''abc''), (''mem_mb'', ''-7'')]"]
  by (simp add: query_of_def Get_def Atoi_def is_digit_def)

section \<open>Runs of the worker pool\<close>

lemma step_frame:
  "step s e = Some s' \<Longrightarrow> req s' = req s \<and> junk s' = junk s \<and> deadline s' = deadline s"
  by (cases e) (auto split: handler_pc.splits if_splits task.splits)

lemma exec_frame:
  "exec s es = Some s' \<Longrightarrow> req s' = req s \<and> junk s' = junk s \<and> deadline s' = deadline s"
proof (induction es arbitrary: s)
  case Nil
  then show ?case by simp
next
  case (Cons e es)
  then obtain s1 where s1: "step s e = Some s1" and rest: "exec s1 es = Some s'"
    by (auto split: option.splits)
  from Cons.IH [OF rest] step_frame [OF s1] show ?case by simp
qed

lemma step_ctx_done: "step s e = Some s' \<Longrightarrow> ctx_done s \<Longrightarrow> ctx_done s'"
  by (cases e) (auto simp: ctx_done_def split: handler_pc.splits if_splits task.splits)

lemma exec_ctx_done: "exec s es = Some s' \<Longrightarrow> ctx_done s \<Longrightarrow> ctx_done s'"
proof (induction es arbitrary: s)
  case Nil
  then show ?case by simp
next
  case (Cons e es)
  then obtain s1 where s1: "step s e = Some s1" and rest: "exec s1 es = Some s'"
    by (auto split: option.splits)
  from Cons.IH [OF rest] step_ctx_done [OF s1 Cons.prems(2)] show ?case by simp
qed

lemma completed_append: "completed (ts @ us) = completed ts + completed us"
  by (simp add: completed_def)

lemma completed_update_same:
  "k < length ts \<Longrightarrow> ts ! k \<noteq> Completed \<Longrightarrow> t \<noteq> Completed \<Longrightarrow>
   completed (ts[k := t]) = completed ts"
proof (induction ts arbitrary: k)
  case Nil
  then show ?case by simp
next
  case (Cons a ts)
  then show ?case by (cases k) (auto simp: completed_def)
qed

lemma completed_update_Completed:
  "k < length ts \<Longrightarrow> ts ! k \<noteq> Completed \<Longrightarrow>
   completed (ts[k := Completed]) = Suc (completed ts)"
proof (induction ts arbitrary: k)
  case Nil
  then show ?case by simp
next
  case (Cons a ts)
  then show ?case by (cases k) (auto simp: completed_def)
qed

lemma completed_le: "completed ts \<le> length ts"
  by (simp add: completed_def)

lemma step_handler_inv:
  assumes "step s e = Some s'" and "handler_inv s n"
  shows "handler_inv s' (if is_rendezvous e then Suc n else n)"
proof (cases e)
  case Handler
  with assms show ?thesis
    by (auto simp: handler_inv_def is_rendezvous_def completed_append completed_def
        split: handler_pc.splits if_splits)
next
  case (Worker k)
  with assms show ?thesis
    by (auto simp: handler_inv_def is_rendezvous_def completed_update_same
        split: handler_pc.splits if_splits task.splits)
next
  case (Rendezvous k)
  with assms show ?thesis
    by (auto simp: handler_inv_def is_rendezvous_def completed_update_Completed
        split: handler_pc.splits if_splits)
next
  case (Tick d)
  with assms show ?thesis
    by (auto simp: handler_inv_def is_rendezvous_def split: handler_pc.splits)
next
  case Cancel
  with assms show ?thesis
    by (auto simp: handler_inv_def is_rendezvous_def split: handler_pc.splits)
qed

lemma exec_handler_inv:
  "exec s es = Some s' \<Longrightarrow> handler_inv s n \<Longrightarrow>
   handler_inv s' (n + length (filter is_rendezvous es))"
proof (induction es arbitrary: s n)
  case Nil
  then show ?case by simp
next
  case (Cons e es)
  then obtain s1 where s1: "step s e = Some s1" and rest: "exec s1 es = Some s'"
    by (auto split: option.splits)
  from Cons.IH [OF rest step_handler_inv [OF s1 Cons.prems(2)]] show ?case
    by (simp split: if_splits)
qed

lemma workers_ge_1: "1 \<le> workers (resolve_params numCPU q)"
  by (simp add: resolve_params_def Let_def)

lemma seconds_ge_1: "1 \<le> seconds (resolve_params numCPU q)"
  by (simp add: resolve_params_def Let_def)

lemma memMB_ge_0: "0 \<le> memMB (resolve_params numCPU q)"
  by (simp add: resolve_params_def Let_def)

lemma burn_init_handler_inv: "handler_inv (burn_init numCPU q w) 0"
  using workers_ge_1 [of numCPU q]
  by (simp add: handler_inv_def burn_init_def Let_def completed_def)

lemma burn_init_req: "req (burn_init numCPU q w) = resolve_params numCPU q"
  by (simp add: burn_init_def Let_def)

text \<open>
  C1. Along every run of a request the goroutines started never exceed the resolved
  \<open>workers\<close>, and the signals the handler has received are exactly the goroutines
  that have returned. When the handler has returned, it has started exactly \<open>workers\<close>
  goroutines, has received exactly \<open>workers\<close> signals, and every goroutine has returned.
\<close>

theorem spawned_eq_awaited:
  assumes "exec (burn_init numCPU q w) sched = Some s"
  shows "length (tasks s) \<le> nat (workers (resolve_params numCPU q)) \<and>
         length (filter is_rendezvous sched) = completed (tasks s) \<and>
         (pc s = Returned \<longrightarrow>
            length (tasks s) = nat (workers (resolve_params numCPU q)) \<and>
            length (filter is_rendezvous sched) = nat (workers (resolve_params numCPU q)) \<and>
            completed (tasks s) = length (tasks s))"
proof -
  have inv: "handler_inv s (length (filter is_rendezvous sched))"
    using exec_handler_inv [OF assms burn_init_handler_inv] by simp
  have r: "req s = resolve_params numCPU q"
    using exec_frame [OF assms] by (simp add: burn_init_req)
  show ?thesis
  proof (cases "pc s")
    case (Spawning i)
    with inv r show ?thesis by (auto simp: handler_inv_def)
  next
    case (Waiting i)
    with inv r show ?thesis by (auto simp: handler_inv_def)
  next
    case Returned
    with inv r show ?thesis by (auto simp: handler_inv_def)
  qed
qed

theorem spawned_eq_awaited_witness:
  "exec (burn_init 4 (query_of [(''seconds'', ''1''), (''workers'', ''2'')]) new_writer)
     [Handler, Handler, Handler, Tick 1000000000, Worker 0, Worker 1, Rendezvous 1,
      Rendezvous 0, Handler] \<noteq> None \<and>
   pc (the (exec (burn_init 4 (query_of [(''seconds'', ''1''), (''workers'', ''2'')]) new_writer)
     [Handler, Handler, Handler, Tick 1000000000, Worker 0, Worker 1, Rendezvous 1,
      Rendezvous 0, Handler])) = Returned \<and>
   length (tasks (the (exec (burn_init 4 (query_of [(''seconds'', ''1''), (''workers'', ''2'')])
       new_writer)
     [Handler, Handler, Handler, Tick 1000000000, Worker 0, Worker 1, Rendezvous 1,
      Rendezvous 0, Handler]))) = 2 \<and>
   length (filter is_rendezvous
     [Handler, Handler, Handler, Tick 1000000000, Worker 0, Worker 1, Rendezvous 1,
      Rendezvous 0, Handler]) = 2"
proof -
  have r: "resolve_params 4 (query_of [(''seconds'', ''1''), (''workers'', ''2'')]) =
      \<lparr>seconds = 1, workers = 2, memMB = 0\<rparr>"
    by (simp add: resolve_params_def query_of_def Get_def atoiDefault_def Atoi_def
        is_digit_def)
  have i: "burn_init 4 (query_of [(''seconds'', ''1''), (''workers'', ''2'')]) new_writer =
      \<lparr>req = \<lparr>seconds = 1, workers = 2, memMB = 0\<rparr>, junk = [], now = 0,
       deadline = 1000000000, parent_done = False, ctx_cancelled = False,
       pc = Spawning 0, tasks = [], rw = new_writer\<rparr>"
    by (simp add: burn_init_def r timeout_ns_def alloc_loop.simps)
  define sF where "sF = the (exec
      (burn_init 4 (query_of [(''seconds'', ''1''), (''workers'', ''2'')]) new_writer)
      [Handler, Handler, Handler, Tick 1000000000, Worker 0, Worker 1, Rendezvous 1,
       Rendezvous 0, Handler])"
  have run: "exec (burn_init 4 (query_of [(''seconds'', ''1''), (''workers'', ''2'')]) new_writer)
      [Handler, Handler, Handler, Tick 1000000000, Worker 0, Worker 1, Rendezvous 1,
       Rendezvous 0, Handler] = Some sF"
    unfolding sF_def by (simp add: i ctx_done_def)
  have p: "pc sF = Returned"
    unfolding sF_def by (simp add: i ctx_done_def)
  from spawned_eq_awaited [OF run] p r have t: "length (tasks sF) = 2"
    by simp
  from spawned_eq_awaited [OF run] p r have n: "length (filter is_rendezvous
      [Handler, Handler, Handler, Tick 1000000000, Worker 0, Worker 1, Rendezvous 1,
       Rendezvous 0, Handler]) = 2"
    by simp
  from run have e: "exec
      (burn_init 4 (query_of [(''seconds'', ''1''), (''workers'', ''2'')]) new_writer)
      [Handler, Handler, Handler, Tick 1000000000, Worker 0, Worker 1, Rendezvous 1,
       Rendezvous 0, Handler] \<noteq> None"
    by simp
  from e p t n show ?thesis
    unfolding sF_def by blast
qed

text \<open>
  C9. The timeout is the 64-bit product of the resolved seconds and \<open>10^9\<close>. Up to
  9223372036 seconds it is the requested duration in nanoseconds; above, it is not.
  At 9223372037 seconds it is negative. The context of a request carries this value
  as its deadline, and when it is not positive the context is done from the start and
  stays so along every run.
\<close>

theorem timeout_overflow:
  "(1 \<le> secs \<and> secs \<le> 9223372036 \<longrightarrow> timeout_ns secs = secs * 1000000000) \<and>
   (9223372036 < secs \<longrightarrow> timeout_ns secs \<noteq> secs * 1000000000) \<and>
   timeout_ns 9223372037 < 0 \<and>
   deadline (burn_init numCPU q w) = timeout_ns (seconds (resolve_params numCPU q)) \<and>
   (timeout_ns (seconds (resolve_params numCPU q)) \<le> 0 \<longrightarrow>
      ctx_done (burn_init numCPU q w) \<and>
      (\<forall>sched s. exec (burn_init numCPU q w) sched = Some s \<longrightarrow> ctx_done s))"
proof -
  have a: "1 \<le> secs \<and> secs \<le> 9223372036 \<longrightarrow> timeout_ns secs = secs * 1000000000"
    by (simp add: timeout_ns_exact_iff)
  have b: "9223372036 < secs \<longrightarrow> timeout_ns secs \<noteq> secs * 1000000000"
    by (simp add: timeout_ns_exact_iff)
  have c: "timeout_ns 9223372037 < 0"
    by (simp add: timeout_ns_def)
  have d: "deadline (burn_init numCPU q w) = timeout_ns (seconds (resolve_params numCPU q))"
    by (simp add: burn_init_def Let_def)
  have e: "ctx_done (burn_init numCPU q w)"
    if "timeout_ns (seconds (resolve_params numCPU q)) \<le> 0"
    using that by (simp add: ctx_done_def burn_init_def Let_def)
  from a b c d e exec_ctx_done show ?thesis by blast
qed

theorem timeout_overflow_witness:
  "timeout_ns 9223372036 = 9223372036000000000 \<and>
   timeout_ns 9223372037 \<noteq> 9223372037000000000 \<and>
   ctx_done (burn_init 4 (query_of [(''seconds'', ''9223372037'')]) new_writer) \<and>
   map_option tasks
     (exec (burn_init 4 (query_of [(''seconds'', ''9223372037''), (''workers'', ''1'')])
        new_writer) [Handler, Worker 0]) = Some [Sending]"
  using timeout_overflow [of 9223372036 4 "query_of [(''seconds'', ''9223372037'')]" new_writer]
    timeout_overflow [of 9223372037 4 "query_of [(''seconds'', ''9223372037'')]" new_writer]
  by (simp add: burn_init_def resolve_params_def query_of_def Get_def atoiDefault_def
      Atoi_def is_digit_def timeout_ns_def ctx_done_def alloc_loop.simps)

text \<open>
  C8. The query \<open>seconds=-5&workers=0&mem_mb=-3\<close> and the query
  \<open>seconds=1&workers=1&mem_mb=0\<close> resolve to the same parameters, 1 second, 1 worker
  and no memory; the handler starts from the same state for both, and every schedule
  runs the same way from it.
\<close>

theorem clamped_query_same_behaviour:
  "resolve_params numCPU
     (query_of [(''seconds'', ''-5''), (''workers'', ''0''), (''mem_mb'', ''-3'')]) =
     \<lparr>seconds = 1, workers = 1, memMB = 0\<rparr> \<and>
   resolve_params numCPU
     (query_of [(''seconds'', ''1''), (''workers'', ''1''), (''mem_mb'', ''0'')]) =
     \<lparr>seconds = 1, workers = 1, memMB = 0\<rparr> \<and>
   burn_init numCPU
     (query_of [(''seconds'', ''-5''), (''workers'', ''0''), (''mem_mb'', ''-3'')]) w =
   burn_init numCPU
     (query_of [(''seconds'', ''1''), (''workers'', ''1''), (''mem_mb'', ''0'')]) w \<and>
   exec (burn_init numCPU
     (query_of [(''seconds'', ''-5''), (''workers'', ''0''), (''mem_mb'', ''-3'')]) w) sched =
   exec (burn_init numCPU
     (query_of [(''seconds'', ''1''), (''workers'', ''1''), (''mem_mb'', ''0'')]) w) sched"
proof -
  have a: "resolve_params numCPU
     (query_of [(''seconds'', ''-5''), (''workers'', ''0''), (''mem_mb'', ''-3'')]) =
     \<lparr>seconds = 1, workers = 1, memMB = 0\<rparr>"
    by (simp add: resolve_params_def query_of_def Get_def atoiDefault_def Atoi_def
        is_digit_def)
  have b: "resolve_params numCPU
     (query_of [(''seconds'', ''1''), (''workers'', ''1''), (''mem_mb'', ''0'')]) =
     \<lparr>seconds = 1, workers = 1, memMB = 0\<rparr>"
    by (simp add: resolve_params_def query_of_def Get_def atoiDefault_def Atoi_def
        is_digit_def)
  have c: "burn_init numCPU
     (query_of [(''seconds'', ''-5''), (''workers'', ''0''), (''mem_mb'', ''-3'')]) w =
   burn_init numCPU
     (query_of [(''seconds'', ''1''), (''workers'', ''1''), (''mem_mb'', ''0'')]) w"
    unfolding burn_init_def a b ..
  from a b c show ?thesis by simp
qed

lemma step_writer_inv: "step s e = Some s' \<Longrightarrow> writer_inv w s \<Longrightarrow> writer_inv w s'"
  by (cases e) (auto simp: writer_inv_def split: handler_pc.splits if_splits task.splits)

lemma exec_writer_inv: "exec s es = Some s' \<Longrightarrow> writer_inv w s \<Longrightarrow> writer_inv w s'"
proof (induction es arbitrary: s)
  case Nil
  then show ?case by auto
next
  case (Cons e es)
  then obtain s1 where s1: "step s e = Some s1" and rest: "exec s1 es = Some s'"
    by (auto split: option.splits)
  from Cons.IH [OF rest step_writer_inv [OF s1 Cons.prems(2)]] show ?case .
qed

text \<open>
  C4. Whatever the query and the processor count, and however the goroutines are
  scheduled, when the handler has returned on a writer to which nothing had been sent,
  the response is status 200 with header \<open>Content-Type: application/json\<close> and the body
  \<open>{"ok":true}\<close>, and nothing else has been written. Until then nothing is written.
\<close>

theorem burn_response:
  assumes "exec (burn_init numCPU q w) sched = Some s"
    and "status w = None" and "body w = []"
  shows "(pc s = Returned \<longrightarrow>
           status (rw s) = Some 200 \<and>
           sent_hdr (rw s) ''Content-Type'' = Some ''application/json'' \<and>
           body (rw s) = ok_body) \<and>
         (pc s \<noteq> Returned \<longrightarrow> rw s = w) \<and>
         ok_body = [CHR ''{'', CHR 0x22, CHR ''o'', CHR ''k'', CHR 0x22, CHR '':'',
                    CHR ''t'', CHR ''r'', CHR ''u'', CHR ''e'', CHR ''}'']"
proof -
  have "writer_inv w (burn_init numCPU q w)"
    by (simp add: writer_inv_def burn_init_def Let_def)
  from exec_writer_inv [OF assms(1) this] have "writer_inv w s" .
  with assms(2,3) show ?thesis
    by (cases "pc s")
      (simp_all add: writer_inv_def Write_def WriteHeader_def Header_Set_def ok_body_def)
qed

theorem burn_response_witness:
  "map_option (\<lambda>s. (pc s, status (rw s), sent_hdr (rw s) ''Content-Type'', body (rw s)))
     (exec (burn_init 1 (query_of [(''seconds'', ''x''), (''workers'', ''''), (''mem_mb'', ''-1'')])
        new_writer)
      [Handler, Handler, Cancel, Worker 0, Rendezvous 0, Handler]) =
   Some (Returned, Some 200, Some ''application/json'', ok_body)"
proof -
  have r: "resolve_params 1
      (query_of [(''seconds'', ''x''), (''workers'', ''''), (''mem_mb'', ''-1'')]) =
      \<lparr>seconds = 20, workers = 1, memMB = 0\<rparr>"
    by (simp add: resolve_params_def query_of_def Get_def atoiDefault_def Atoi_def
        is_digit_def)
  have i: "burn_init 1
      (query_of [(''seconds'', ''x''), (''workers'', ''''), (''mem_mb'', ''-1'')]) new_writer =
      \<lparr>req = \<lparr>seconds = 20, workers = 1, memMB = 0\<rparr>, junk = [], now = 0,
       deadline = 20000000000, parent_done = False, ctx_cancelled = False,
       pc = Spawning 0, tasks = [], rw = new_writer\<rparr>"
    by (simp add: burn_init_def r timeout_ns_def alloc_loop.simps)
  define sF where "sF = the (exec
      (burn_init 1 (query_of [(''seconds'', ''x''), (''workers'', ''''), (''mem_mb'', ''-1'')])
        new_writer)
      [Handler, Handler, Cancel, Worker 0, Rendezvous 0, Handler])"
  have run: "exec
      (burn_init 1 (query_of [(''seconds'', ''x''), (''workers'', ''''), (''mem_mb'', ''-1'')])
        new_writer)
      [Handler, Handler, Cancel, Worker 0, Rendezvous 0, Handler] = Some sF"
    unfolding sF_def by (simp add: i ctx_done_def)
  have p: "pc sF = Returned"
    unfolding sF_def by (simp add: i ctx_done_def)
  have "status new_writer = None" and "body new_writer = []"
    by (simp_all add: new_writer_def)
  from burn_response [OF run this] p
  have "(pc sF, status (rw sF), sent_hdr (rw sF) ''Content-Type'', body (rw sF)) =
      (Returned, Some 200, Some ''application/json'', ok_body)"
    by simp
  with run show ?thesis by simp
qed

lemma step_task_inv:
  assumes "step s e = Some s'" and "task_inv k s m"
  shows "task_inv k s' (if e = Rendezvous k then Suc m else m)"
proof (cases e)
  case Handler
  with assms show ?thesis
    by (auto simp: task_inv_def ctx_done_def nth_append
        split: handler_pc.splits if_splits task.splits)
next
  case (Worker j)
  with assms show ?thesis
    by (cases "j = k")
      (auto simp: task_inv_def ctx_done_def split: if_splits task.splits)
next
  case (Rendezvous j)
  with assms show ?thesis
    by (cases "j = k")
      (auto simp: task_inv_def ctx_done_def split: handler_pc.splits if_splits task.splits)
next
  case (Tick d)
  with assms show ?thesis
    by (auto simp: task_inv_def ctx_done_def split: if_splits task.splits)
next
  case Cancel
  with assms show ?thesis
    by (auto simp: task_inv_def ctx_done_def split: if_splits task.splits)
qed

lemma exec_task_inv:
  "exec s es = Some s' \<Longrightarrow> task_inv k s m \<Longrightarrow>
   task_inv k s' (m + count_list es (Rendezvous k))"
proof (induction es arbitrary: s m)
  case Nil
  then show ?case by auto
next
  case (Cons e es)
  then obtain s1 where s1: "step s e = Some s1" and rest: "exec s1 es = Some s'"
    by (auto split: option.splits)
  from Cons.IH [OF rest step_task_inv [OF s1 Cons.prems(2)]] show ?case
    by (simp split: if_splits)
qed

lemma burn_init_task_inv: "task_inv k (burn_init numCPU q w) 0"
  by (simp add: task_inv_def burn_init_def Let_def)

lemma step_exit_path:
  assumes "step s e = Some s'" and "k < length (tasks s)" and "tasks s ! k \<noteq> Completed"
    and "tasks s' ! k = Completed"
  shows "e = Rendezvous k \<and> tasks s ! k = Sending"
proof (cases e)
  case Handler
  with assms show ?thesis
    by (auto simp: nth_append split: handler_pc.splits if_splits)
next
  case (Worker j)
  with assms show ?thesis
    by (cases "j = k") (auto split: if_splits task.splits)
next
  case (Rendezvous j)
  with assms show ?thesis
    by (cases "j = k") (auto split: handler_pc.splits if_splits)
next
  case (Tick d)
  with assms show ?thesis by auto
next
  case Cancel
  with assms show ?thesis by auto
qed

lemma step_signal_after_expiry:
  assumes "step s e = Some s'" and "k < length (tasks s)" and "tasks s ! k = Running x"
    and "tasks s' ! k = Sending"
  shows "e = Worker k \<and> ctx_done s"
proof (cases e)
  case Handler
  with assms show ?thesis
    by (auto simp: nth_append split: handler_pc.splits if_splits)
next
  case (Worker j)
  with assms show ?thesis
    by (cases "j = k") (auto split: if_splits task.splits)
next
  case (Rendezvous j)
  with assms show ?thesis
    by (cases "j = k") (auto split: handler_pc.splits if_splits)
next
  case (Tick d)
  with assms show ?thesis by auto
next
  case Cancel
  with assms show ?thesis by auto
qed

text \<open>
  C5. For every worker \<open>k\<close> of every run: an iteration of a running worker is always
  enabled and is decided by the state of the shared context alone (the check does not
  block); the worker comes to its send only through such an iteration with the context
  done, and a worker at or past its send implies the context is done; the worker
  returns only through the rendezvous of its own send; and the number of its signals
  in the run is 1 when it has returned and 0 otherwise.
\<close>

theorem worker_signals_once:
  assumes "exec (burn_init numCPU q w) sched = Some s"
  shows "count_list sched (Rendezvous k) =
           (if k < length (tasks s) \<and> tasks s ! k = Completed then 1 else 0) \<and>
         (k < length (tasks s) \<and> tasks s ! k \<noteq> Completed \<longrightarrow>
            (\<forall>x. tasks s ! k = Running x \<longrightarrow>
               step s (Worker k) =
                 Some (s\<lparr>tasks := (tasks s)[k := (if ctx_done s then Sending
                                                    else Running (spin x))]\<rparr>)) \<and>
            (tasks s ! k = Sending \<longrightarrow> ctx_done s \<and> step s (Worker k) = None) \<and>
            (\<forall>e s' x. step s e = Some s' \<and> tasks s ! k = Running x \<and> tasks s' ! k = Sending
               \<longrightarrow> e = Worker k \<and> ctx_done s) \<and>
            (\<forall>e s'. step s e = Some s' \<and> tasks s' ! k = Completed
               \<longrightarrow> e = Rendezvous k \<and> tasks s ! k = Sending)) \<and>
         (k < length (tasks s) \<and> tasks s ! k = Completed \<longrightarrow>
            ctx_done s \<and> step s (Worker k) = None \<and> step s (Rendezvous k) = None \<and>
            (\<forall>e s'. step s e = Some s' \<longrightarrow> tasks s' ! k = Completed))"
proof -
  have inv: "task_inv k s (count_list sched (Rendezvous k))"
    using exec_task_inv [OF assms burn_init_task_inv] by simp
  have a: "count_list sched (Rendezvous k) =
      (if k < length (tasks s) \<and> tasks s ! k = Completed then 1 else 0)"
    using inv by (auto simp: task_inv_def split: if_splits task.splits)
  have b: "step s (Worker k) =
      Some (s\<lparr>tasks := (tasks s)[k := (if ctx_done s then Sending else Running (spin x))]\<rparr>)"
    if "k < length (tasks s)" and "tasks s ! k = Running x" for x
    using that by simp
  have c: "ctx_done s \<and> step s (Worker k) = None"
    if "k < length (tasks s)" and "tasks s ! k = Sending"
    using that inv by (simp add: task_inv_def)
  have d: "ctx_done s \<and> step s (Worker k) = None \<and> step s (Rendezvous k) = None"
    if "k < length (tasks s)" and "tasks s ! k = Completed"
    using that inv by (simp add: task_inv_def split: handler_pc.splits)
  have e: "tasks s' ! k = Completed"
    if "k < length (tasks s)" and "tasks s ! k = Completed" and "step s e = Some s'" for e s'
  proof (cases e)
    case Handler
    with that show ?thesis
      by (auto simp: nth_append split: handler_pc.splits if_splits)
  next
    case (Worker j)
    with that show ?thesis
      by (cases "j = k") (auto split: if_splits task.splits)
  next
    case (Rendezvous j)
    with that show ?thesis
      by (cases "j = k") (auto split: handler_pc.splits if_splits)
  next
    case (Tick d)
    with that show ?thesis by auto
  next
    case Cancel
    with that show ?thesis by auto
  qed
  from a b c d e step_exit_path step_signal_after_expiry show ?thesis
    by blast
qed

theorem worker_signals_once_witness:
  "map_option (\<lambda>s. (tasks s, ctx_done s, step s (Worker 0)))
     (exec (burn_init 4 (query_of [(''workers'', ''1'')]) new_writer)
        [Handler, Handler, Worker 0, Cancel, Worker 0]) = Some ([Sending], True, None) \<and>
   count_list [Handler, Handler, Worker 0, Cancel, Worker 0] (Rendezvous 0) = 0 \<and>
   map_option tasks
     (exec (burn_init 4 (query_of [(''workers'', ''1'')]) new_writer)
        [Handler, Handler, Worker 0, Cancel, Worker 0, Rendezvous 0]) = Some [Completed] \<and>
   count_list [Handler, Handler, Worker 0, Cancel, Worker 0, Rendezvous 0] (Rendezvous 0) = 1"
proof -
  have r: "resolve_params 4 (query_of [(''workers'', ''1'')]) =
      \<lparr>seconds = 20, workers = 1, memMB = 0\<rparr>"
    by (simp add: resolve_params_def query_of_def Get_def atoiDefault_def Atoi_def
        is_digit_def)
  have i: "burn_init 4 (query_of [(''workers'', ''1'')]) new_writer =
      \<lparr>req = \<lparr>seconds = 20, workers = 1, memMB = 0\<rparr>, junk = [], now = 0,
       deadline = 20000000000, parent_done = False, ctx_cancelled = False,
       pc = Spawning 0, tasks = [], rw = new_writer\<rparr>"
    by (simp add: burn_init_def r timeout_ns_def alloc_loop.simps)
  define s1 where "s1 = the (exec (burn_init 4 (query_of [(''workers'', ''1'')]) new_writer)
      [Handler, Handler, Worker 0, Cancel, Worker 0])"
  define s2 where "s2 = the (exec (burn_init 4 (query_of [(''workers'', ''1'')]) new_writer)
      [Handler, Handler, Worker 0, Cancel, Worker 0, Rendezvous 0])"
  have run1: "exec (burn_init 4 (query_of [(''workers'', ''1'')]) new_writer)
      [Handler, Handler, Worker 0, Cancel, Worker 0] = Some s1"
    unfolding s1_def by (simp add: i ctx_done_def)
  have run2: "exec (burn_init 4 (query_of [(''workers'', ''1'')]) new_writer)
      [Handler, Handler, Worker 0, Cancel, Worker 0, Rendezvous 0] = Some s2"
    unfolding s2_def by (simp add: i ctx_done_def)
  have t1: "tasks s1 = [Sending]"
    unfolding s1_def by (simp add: i ctx_done_def)
  have t2: "tasks s2 = [Completed]"
    unfolding s2_def by (simp add: i ctx_done_def)
  from worker_signals_once [OF run1, of 0] t1
  have a: "ctx_done s1 \<and> step s1 (Worker 0) = None \<and>
      count_list [Handler, Handler, Worker 0, Cancel, Worker 0] (Rendezvous 0) = 0"
    by simp
  from worker_signals_once [OF run2, of 0] t2
  have b: "count_list [Handler, Handler, Worker 0, Cancel, Worker 0, Rendezvous 0]
      (Rendezvous 0) = 1"
    by simp
  from a b t1 t2 show ?thesis
    unfolding run1 run2 by simp
qed

text \<open>
  C6. The context of a request is created before any goroutine exists, with the
  timeout computed from the resolved seconds as its deadline (the seconds in
  nanoseconds, as long as the product fits 64 bits); the deadline never changes along
  a run; the context is done when the request's own context is cancelled, or the
  deadline has passed, or the handler has returned; and the iteration of every running
  worker is decided by that one context.
\<close>

theorem shared_deadline:
  assumes "exec (burn_init numCPU q w) sched = Some s"
  shows "tasks (burn_init numCPU q w) = [] \<and>
         deadline (burn_init numCPU q w) = timeout_ns (seconds (resolve_params numCPU q)) \<and>
         deadline s = timeout_ns (seconds (resolve_params numCPU q)) \<and>
         (seconds (resolve_params numCPU q) \<le> 9223372036 \<longrightarrow>
            deadline s = seconds (resolve_params numCPU q) * 1000000000) \<and>
         ctx_done s =
           (parent_done s \<or> ctx_cancelled s \<or>
            timeout_ns (seconds (resolve_params numCPU q)) \<le> now s) \<and>
         (\<forall>k x. k < length (tasks s) \<and> tasks s ! k = Running x \<longrightarrow>
            map_option (\<lambda>s'. tasks s' ! k) (step s (Worker k)) =
              Some (if ctx_done s then Sending else Running (spin x)))"
proof -
  have a: "tasks (burn_init numCPU q w) = []"
    by (simp add: burn_init_def Let_def)
  have b: "deadline (burn_init numCPU q w) = timeout_ns (seconds (resolve_params numCPU q))"
    by (simp add: burn_init_def Let_def)
  have c: "deadline s = timeout_ns (seconds (resolve_params numCPU q))"
    using exec_frame [OF assms] b by simp
  have d: "deadline s = seconds (resolve_params numCPU q) * 1000000000"
    if "seconds (resolve_params numCPU q) \<le> 9223372036"
    using that seconds_ge_1 [of numCPU q] c by (simp add: timeout_ns_exact_iff)
  have e: "ctx_done s =
      (parent_done s \<or> ctx_cancelled s \<or>
       timeout_ns (seconds (resolve_params numCPU q)) \<le> now s)"
    by (simp add: ctx_done_def c)
  have f: "map_option (\<lambda>s'. tasks s' ! k) (step s (Worker k)) =
      Some (if ctx_done s then Sending else Running (spin x))"
    if "k < length (tasks s)" and "tasks s ! k = Running x" for k x
    using that by simp
  from a b c d e f show ?thesis by blast
qed

theorem shared_deadline_witness:
  "map_option (\<lambda>s. (deadline s, now s, ctx_done s,
       map_option (\<lambda>s'. tasks s' ! 0) (step s (Worker 0)),
       map_option (\<lambda>s'. tasks s' ! 1) (step s (Worker 1))))
     (exec (burn_init 4 (query_of [(''seconds'', ''2''), (''workers'', ''2'')]) new_writer)
        [Handler, Handler, Handler, Tick 2000000000]) =
   Some (2000000000, 2000000000, True, Some Sending, Some Sending)"
proof -
  have r: "resolve_params 4 (query_of [(''seconds'', ''2''), (''workers'', ''2'')]) =
      \<lparr>seconds = 2, workers = 2, memMB = 0\<rparr>"
    by (simp add: resolve_params_def query_of_def Get_def atoiDefault_def Atoi_def
        is_digit_def)
  have i: "burn_init 4 (query_of [(''seconds'', ''2''), (''workers'', ''2'')]) new_writer =
      \<lparr>req = \<lparr>seconds = 2, workers = 2, memMB = 0\<rparr>, junk = [], now = 0,
       deadline = 2000000000, parent_done = False, ctx_cancelled = False,
       pc = Spawning 0, tasks = [], rw = new_writer\<rparr>"
    by (simp add: burn_init_def r timeout_ns_def alloc_loop.simps)
  define s1 where "s1 = the (exec
      (burn_init 4 (query_of [(''seconds'', ''2''), (''workers'', ''2'')]) new_writer)
      [Handler, Handler, Handler, Tick 2000000000])"
  have run: "exec
      (burn_init 4 (query_of [(''seconds'', ''2''), (''workers'', ''2'')]) new_writer)
      [Handler, Handler, Handler, Tick 2000000000] = Some s1"
    unfolding s1_def by (simp add: i)
  have t: "tasks s1 = [Running (1 / 10000), Running (1 / 10000)]" and n: "now s1 = 2000000000"
    and p: "parent_done s1 = False" and c: "ctx_cancelled s1 = False"
    unfolding s1_def by (simp_all add: i)
  from shared_deadline [OF run] r
  have d: "deadline s1 = 2000000000" and cd: "ctx_done s1"
    by (simp_all add: n)
  from shared_deadline [OF run] t cd
  have w0: "map_option (\<lambda>s'. tasks s' ! 0) (step s1 (Worker 0)) = Some Sending"
    and w1: "map_option (\<lambda>s'. tasks s' ! 1) (step s1 (Worker 1)) = Some Sending"
    by simp_all
  show ?thesis
    unfolding run by (simp only: option.map d n cd w0 w1 simp_thms)
qed

section \<open>The compute loop\<close>

lemma spin_upper: "spin x \<le> 1000000000"
  by (simp add: spin_def Let_def)

lemma spin_lower:
  assumes "1 / 10000 \<le> x"
  shows "1 / 10000 \<le> spin x"
proof (cases "x + sqrt x > 1000000000")
  case True
  then show ?thesis by (simp add: spin_def Let_def)
next
  case False
  from assms have "0 \<le> x" by simp
  then have "0 \<le> sqrt x" by simp
  with assms have "1 / 10000 \<le> x + sqrt x" by linarith
  with False show ?thesis by (simp only: spin_def Let_def if_False)
qed

lemma spin_iter_bounds:
  "1 / 10000 \<le> (spin ^^ n) (1 / 10000) \<and> (spin ^^ n) (1 / 10000) \<le> 1000000000"
proof (induction n)
  case 0
  show ?case by simp
next
  case (Suc n)
  then have "1 / 10000 \<le> spin ((spin ^^ n) (1 / 10000))"
    using spin_lower by blast
  moreover have "spin ((spin ^^ n) (1 / 10000)) \<le> 1000000000"
    by (rule spin_upper)
  ultimately show ?case by (simp only: funpow.simps o_apply)
qed

lemma spin_value_start: "spin_value (1 / 10000)"
  unfolding spin_value_def by (rule exI [of _ 0]) simp

lemma spin_value_step: "spin_value x \<Longrightarrow> spin_value (spin x)"
proof -
  assume "spin_value x"
  then obtain n where "x = (spin ^^ n) (1 / 10000)"
    unfolding spin_value_def by blast
  then have "spin x = (spin ^^ Suc n) (1 / 10000)" by simp
  then show ?thesis unfolding spin_value_def by blast
qed

lemma task_ok_update:
  "\<forall>t \<in> set ts. task_ok t \<Longrightarrow> task_ok v \<Longrightarrow> \<forall>t \<in> set (ts[k := v]). task_ok t"
  using set_update_subset_insert [of ts k v] by blast

lemma step_spin_inv:
  assumes "step s e = Some s'" and "spin_inv s"
  shows "spin_inv s'"
proof (cases e)
  case Handler
  with assms show ?thesis
    by (auto simp: spin_inv_def task_ok_def spin_value_start
        split: handler_pc.splits if_splits)
next
  case (Worker k)
  show ?thesis
  proof (cases "k < length (tasks s)")
    case False
    with Worker assms show ?thesis by simp
  next
    case True
    with Worker assms obtain x where x: "tasks s ! k = Running x"
      and s': "tasks s' = (tasks s)[k := (if ctx_done s then Sending else Running (spin x))]"
      by (auto split: task.splits)
    from True x assms(2) have "task_ok (Running x)"
      unfolding spin_inv_def using nth_mem by metis
    then have "task_ok (if ctx_done s then Sending else Running (spin x))"
      by (simp add: task_ok_def spin_value_step)
    moreover from assms(2) have "\<forall>t \<in> set (tasks s). task_ok t"
      unfolding spin_inv_def .
    ultimately show ?thesis
      unfolding spin_inv_def s' using task_ok_update by blast
  qed
next
  case (Rendezvous k)
  have c: "task_ok Completed" by (simp add: task_ok_def)
  from Rendezvous assms(1) have ts': "tasks s' = (tasks s)[k := Completed]"
    by (auto split: handler_pc.splits if_splits)
  from assms(2) have "\<forall>t \<in> set (tasks s). task_ok t"
    unfolding spin_inv_def .
  from task_ok_update [OF this c] show ?thesis
    unfolding spin_inv_def ts' .
next
  case (Tick d)
  with assms show ?thesis by (auto simp: spin_inv_def)
next
  case Cancel
  with assms show ?thesis by (auto simp: spin_inv_def)
qed

lemma exec_spin_inv: "exec s es = Some s' \<Longrightarrow> spin_inv s \<Longrightarrow> spin_inv s'"
proof (induction es arbitrary: s)
  case Nil
  then show ?case by auto
next
  case (Cons e es)
  then obtain s1 where s1: "step s e = Some s1" and rest: "exec s1 es = Some s'"
    by (auto split: option.splits)
  from Cons.IH [OF rest step_spin_inv [OF s1 Cons.prems(2)]] show ?case .
qed

text \<open>
  C7. The value \<open>x\<close> of a running worker, in every run, is an iterate of the loop body
  started at \<open>0.0001\<close>; the body replaces \<open>x\<close> by \<open>x + sqrt x\<close>, and by \<open>0.0001\<close> when
  that sum exceeds \<open>10^9\<close>; so \<open>x\<close> stays between \<open>0.0001\<close> and \<open>10^9\<close>.
\<close>

theorem spin_bounded:
  assumes "exec (burn_init numCPU q w) sched = Some s"
    and "k < length (tasks s)" and "tasks s ! k = Running x"
  shows "(\<exists>n. x = (spin ^^ n) (1 / 10000)) \<and>
         1 / 10000 \<le> x \<and> x \<le> 1000000000 \<and>
         spin x = (if x + sqrt x > 1000000000 then 1 / 10000 else x + sqrt x) \<and>
         (\<forall>n. (spin ^^ n) (1 / 10000) \<le> 1000000000)"
proof -
  have "spin_inv (burn_init numCPU q w)"
    by (simp add: spin_inv_def burn_init_def Let_def)
  from exec_spin_inv [OF assms(1) this] have "spin_inv s" .
  with assms(2,3) have "task_ok (Running x)"
    unfolding spin_inv_def using nth_mem by metis
  then obtain n where n: "x = (spin ^^ n) (1 / 10000)"
    unfolding task_ok_def spin_value_def by auto
  with spin_iter_bounds [of n] have "1 / 10000 \<le> x \<and> x \<le> 1000000000" by simp
  moreover have "spin x = (if x + sqrt x > 1000000000 then 1 / 10000 else x + sqrt x)"
    by (simp add: spin_def Let_def)
  ultimately show ?thesis using n spin_iter_bounds by blast
qed

theorem spin_bounded_witness:
  "map_option tasks
     (exec (burn_init 4 (query_of [(''workers'', ''1'')]) new_writer)
        [Handler, Handler, Worker 0, Worker 0]) =
     Some [Running (spin (spin (1 / 10000)))] \<and>
   1 / 10000 \<le> spin (spin (1 / 10000)) \<and> spin (spin (1 / 10000)) \<le> 1000000000"
proof -
  have r: "resolve_params 4 (query_of [(''workers'', ''1'')]) =
      \<lparr>seconds = 20, workers = 1, memMB = 0\<rparr>"
    by (simp add: resolve_params_def query_of_def Get_def atoiDefault_def Atoi_def
        is_digit_def)
  have i: "burn_init 4 (query_of [(''workers'', ''1'')]) new_writer =
      \<lparr>req = \<lparr>seconds = 20, workers = 1, memMB = 0\<rparr>, junk = [], now = 0,
       deadline = 20000000000, parent_done = False, ctx_cancelled = False,
       pc = Spawning 0, tasks = [], rw = new_writer\<rparr>"
    by (simp add: burn_init_def r timeout_ns_def alloc_loop.simps)
  define s1 where "s1 = the (exec (burn_init 4 (query_of [(''workers'', ''1'')]) new_writer)
      [Handler, Handler, Worker 0, Worker 0])"
  have run: "exec (burn_init 4 (query_of [(''workers'', ''1'')]) new_writer)
      [Handler, Handler, Worker 0, Worker 0] = Some s1"
    unfolding s1_def by (simp add: i ctx_done_def)
  have t: "tasks s1 = [Running (spin (spin (1 / 10000)))]"
    unfolding s1_def by (simp add: i ctx_done_def)
  then have "0 < length (tasks s1)" and "tasks s1 ! 0 = Running (spin (spin (1 / 10000)))"
    by simp_all
  from spin_bounded [OF run this] t show ?thesis
    unfolding run by simp
qed

section \<open>The memory blocks\<close>

lemma touch_loop_length: "length (bytes (touch_loop j b)) = length (bytes b)"
proof (induction j b rule: touch_loop.induct)
  case (1 j b)
  show ?case
  proof (cases "j < length (bytes b)")
    case True
    with "1.IH" show ?thesis by (subst touch_loop.simps) simp
  next
    case False
    then show ?thesis by (subst touch_loop.simps) simp
  qed
qed

lemma stride_count:
  assumes "j < n"
  shows "(n - j + 4095) div 4096 = Suc ((n - (j + 4096) + 4095) div (4096::nat))"
proof (cases "n - j < 4096")
  case True
  with assms have lo: "4096 \<le> n - j + 4095" and hi: "n - j + 4095 < 2 * 4096"
    by simp_all
  have "(n - j + 4095) div 4096 = 1"
  proof -
    from lo have "1 \<le> (n - j + 4095) div 4096"
      by (simp add: Suc_le_eq div_greater_zero_iff)
    moreover from hi have "(n - j + 4095) div 4096 < 2"
      by (simp add: less_mult_imp_div_less)
    ultimately show ?thesis by simp
  qed
  moreover from True have "(n - (j + 4096) + 4095) div 4096 = 0"
    by simp
  ultimately show ?thesis by simp
next
  case False
  then have "n - j + 4095 = (n - (j + 4096) + 4095) + 4096"
    by simp
  then show ?thesis
    by (simp only: div_add_self2)
qed

lemma strides_step:
  assumes "j < n"
  shows "j # map (\<lambda>i. j + 4096 + 4096 * i) [0..<(n - (j + 4096) + 4095) div 4096] =
         map (\<lambda>i. j + 4096 * i) [0..<(n - j + 4095) div (4096::nat)]"
proof -
  note m = stride_count [OF assms]
  have "j # map (\<lambda>i. j + 4096 + 4096 * i) [0..<(n - (j + 4096) + 4095) div 4096] =
      map (\<lambda>i. j + 4096 * i) [0..<Suc ((n - (j + 4096) + 4095) div 4096)]"
    by (simp only: upt_conv_Cons [OF zero_less_Suc] list.map map_Suc_upt [symmetric] map_map)
      (simp add: comp_def)
  then show ?thesis unfolding m .
qed

lemma touch_loop_written:
  "written (touch_loop j b) =
     written b @ map (\<lambda>i. j + 4096 * i) [0..<(length (bytes b) - j + 4095) div 4096]"
proof (induction j b rule: touch_loop.induct)
  case (1 j b)
  show ?case
  proof (cases "j < length (bytes b)")
    case True
    have "written (touch_loop j b) =
        written (touch_loop (j + 4096)
          (b\<lparr>bytes := (bytes b)[j := of_nat j], written := written b @ [j]\<rparr>))"
      using True by (subst touch_loop.simps) simp
    also have "\<dots> = (written b @ [j]) @
        map (\<lambda>i. j + 4096 + 4096 * i) [0..<(length (bytes b) - (j + 4096) + 4095) div 4096]"
      using "1.IH" [OF True] by simp
    also have "\<dots> = written b @
        (j # map (\<lambda>i. j + 4096 + 4096 * i)
               [0..<(length (bytes b) - (j + 4096) + 4095) div 4096])"
      by simp
    finally show ?thesis by (simp only: strides_step [OF True])
  next
    case False
    then have "(length (bytes b) - j + 4095) div 4096 = 0" by simp
    with False show ?thesis by (subst touch_loop.simps) simp
  qed
qed

lemma touch_loop_zero:
  "256 dvd j \<Longrightarrow> bytes b = replicate n 0 \<Longrightarrow> bytes (touch_loop j b) = replicate n 0"
proof (induction j b rule: touch_loop.induct)
  case (1 j b)
  show ?case
  proof (cases "j < length (bytes b)")
    case True
    from "1.prems"(1) have z: "(of_nat j :: 8 word) = 0"
      by (simp add: word_of_nat_eq_0_iff)
    have d: "256 dvd j + 4096" using "1.prems"(1) by presburger
    have "(bytes b)[j := (of_nat j :: 8 word)] = replicate n 0"
      using "1.prems"(2) True z by (simp add: list_update_same_conv)
    then have "bytes (b\<lparr>bytes := (bytes b)[j := of_nat j], written := written b @ [j]\<rparr>) =
        replicate n 0"
      by simp
    from "1.IH" [OF True d this] True show ?thesis
      by (subst touch_loop.simps) simp
  next
    case False
    with "1.prems"(2) show ?thesis by (subst touch_loop.simps) simp
  qed
qed

lemma alloc_loop_eq:
  "alloc_loop i n js = js @ replicate (nat (n - i)) (touch_loop 0 (make_bytes (1024 * 1024)))"
proof (induction i n js rule: alloc_loop.induct)
  case (1 i n js)
  show ?case
  proof (cases "i < n")
    case True
    then have "nat (n - i) = Suc (nat (n - (i + 1)))" by simp
    with "1.IH" [OF True] True show ?thesis
      by (subst alloc_loop.simps) (simp add: replicate_app_Cons_same)
  next
    case False
    then show ?thesis by (subst alloc_loop.simps) simp
  qed
qed

lemma touched_block:
  "length (bytes (touch_loop 0 (make_bytes (1024 * 1024)))) = 1048576 \<and>
   written (touch_loop 0 (make_bytes (1024 * 1024))) = map (\<lambda>i. 4096 * i) [0..<256] \<and>
   bytes (touch_loop 0 (make_bytes (1024 * 1024))) = replicate 1048576 0"
proof -
  have b: "bytes (make_bytes (1024 * 1024)) = replicate 1048576 0"
    and w: "written (make_bytes (1024 * 1024)) = []"
    by (simp_all add: make_bytes_def)
  have "(1048576 - 0 + 4095) div 4096 = (256::nat)" by simp
  with touch_loop_written [of 0 "make_bytes (1024 * 1024)"] b w
  have "written (touch_loop 0 (make_bytes (1024 * 1024))) = map (\<lambda>i. 4096 * i) [0..<256]"
    by simp
  moreover from touch_loop_length [of 0 "make_bytes (1024 * 1024)"] b
  have "length (bytes (touch_loop 0 (make_bytes (1024 * 1024)))) = 1048576" by simp
  moreover from touch_loop_zero [of 0 "make_bytes (1024 * 1024)" 1048576] b
  have "bytes (touch_loop 0 (make_bytes (1024 * 1024))) = replicate 1048576 0" by simp
  ultimately show ?thesis by blast
qed

lemma stride_mem: "j < 1048576 \<Longrightarrow> 4096 dvd j \<Longrightarrow> j \<in> set (map (\<lambda>i. 4096 * i) [0..<256])"
proof -
  assume j: "j < (1048576::nat)" and d: "4096 dvd j"
  from d obtain i where i: "j = 4096 * i" by (auto simp: dvd_def)
  with j have "i < 256" by simp
  with i show ?thesis by auto
qed

text \<open>
  C3. For a resolved \<open>memMB\<close> of \<open>k\<close>, which is never negative, the handler holds
  exactly \<open>k\<close> blocks before it starts any goroutine; each block is 1048576 bytes long
  and has had a store at every offset that is a multiple of 4096 (exactly once each,
  in increasing order, the value stored being 0); and the blocks stay as they are
  along every run.
\<close>

theorem memory_blocks:
  assumes "exec (burn_init numCPU q w) sched = Some s"
  shows "0 \<le> memMB (resolve_params numCPU q) \<and>
         junk (burn_init numCPU q w) = alloc_loop 0 (memMB (resolve_params numCPU q)) [] \<and>
         length (junk (burn_init numCPU q w)) = nat (memMB (resolve_params numCPU q)) \<and>
         (\<forall>b \<in> set (junk (burn_init numCPU q w)).
            length (bytes b) = 1024 * 1024 \<and>
            (\<forall>j < 1024 * 1024. 4096 dvd j \<longrightarrow> j \<in> set (written b)) \<and>
            written b = map (\<lambda>i. 4096 * i) [0..<256] \<and>
            bytes b = replicate (1024 * 1024) 0) \<and>
         tasks (burn_init numCPU q w) = [] \<and>
         junk s = junk (burn_init numCPU q w)"
proof -
  let ?k = "memMB (resolve_params numCPU q)"
  let ?blk = "touch_loop 0 (make_bytes (1024 * 1024))"
  have j0: "junk (burn_init numCPU q w) = alloc_loop 0 ?k []"
    by (simp add: burn_init_def Let_def)
  have j1: "alloc_loop 0 ?k [] = replicate (nat ?k) ?blk"
    by (simp add: alloc_loop_eq)
  have len: "length (junk (burn_init numCPU q w)) = nat ?k"
    by (simp add: j0 j1)
  have blocks: "length (bytes b) = 1024 * 1024 \<and>
      (\<forall>j < 1024 * 1024. 4096 dvd j \<longrightarrow> j \<in> set (written b)) \<and>
      written b = map (\<lambda>i. 4096 * i) [0..<256] \<and>
      bytes b = replicate (1024 * 1024) 0"
    if "b \<in> set (junk (burn_init numCPU q w))" for b
  proof -
    from that have "b = ?blk" by (simp add: j0 j1)
    with touched_block stride_mem show ?thesis by simp
  qed
  have t: "tasks (burn_init numCPU q w) = []"
    by (simp add: burn_init_def Let_def)
  from exec_frame [OF assms] have fr: "junk s = junk (burn_init numCPU q w)" by simp
  from memMB_ge_0 [of numCPU q] j0 len blocks t fr show ?thesis by blast
qed

theorem memory_blocks_witness:
  "length (junk (burn_init 4 (query_of [(''workers'', ''1''), (''mem_mb'', ''2'')]) new_writer))
     = 2 \<and>
   map (\<lambda>b. (length (bytes b), 8192 \<in> set (written b)))
     (junk (burn_init 4 (query_of [(''workers'', ''1''), (''mem_mb'', ''2'')]) new_writer)) =
     [(1048576, True), (1048576, True)] \<and>
   map_option (\<lambda>s. (length (tasks s), length (junk s)))
     (exec (burn_init 4 (query_of [(''workers'', ''1''), (''mem_mb'', ''2'')]) new_writer)
        [Handler]) = Some (1, 2)"
proof -
  have r: "resolve_params 4 (query_of [(''workers'', ''1''), (''mem_mb'', ''2'')]) =
      \<lparr>seconds = 20, workers = 1, memMB = 2\<rparr>"
    by (simp add: resolve_params_def query_of_def Get_def atoiDefault_def Atoi_def
        is_digit_def)
  have i: "burn_init 4 (query_of [(''workers'', ''1''), (''mem_mb'', ''2'')]) new_writer =
      \<lparr>req = \<lparr>seconds = 20, workers = 1, memMB = 2\<rparr>, junk = alloc_loop 0 2 [], now = 0,
       deadline = 20000000000, parent_done = False, ctx_cancelled = False,
       pc = Spawning 0, tasks = [], rw = new_writer\<rparr>"
    by (simp add: burn_init_def r timeout_ns_def)
  define s1 where "s1 = the (exec
      (burn_init 4 (query_of [(''workers'', ''1''), (''mem_mb'', ''2'')]) new_writer) [Handler])"
  have run: "exec
      (burn_init 4 (query_of [(''workers'', ''1''), (''mem_mb'', ''2'')]) new_writer) [Handler] =
      Some s1"
    unfolding s1_def by (simp add: i)
  have t: "length (tasks s1) = 1"
    unfolding s1_def by (simp add: i)
  have mk: "memMB (resolve_params 4 (query_of [(''workers'', ''1''), (''mem_mb'', ''2'')])) = 2"
    by (simp add: r)
  note m = memory_blocks [OF run, unfolded mk]
  note m_len = m [THEN conjunct2, THEN conjunct2, THEN conjunct1]
  note m_blk = m [THEN conjunct2, THEN conjunct2, THEN conjunct2, THEN conjunct1]
  note m_frm = m [THEN conjunct2, THEN conjunct2, THEN conjunct2, THEN conjunct2,
      THEN conjunct2]
  from m_len have a: "length (junk (burn_init 4
      (query_of [(''workers'', ''1''), (''mem_mb'', ''2'')]) new_writer)) = 2"
    by simp
  have b: "\<forall>b \<in> set (junk (burn_init 4
      (query_of [(''workers'', ''1''), (''mem_mb'', ''2'')]) new_writer)).
      length (bytes b) = 1048576 \<and> 8192 \<in> set (written b)"
  proof
    fix b
    assume "b \<in> set (junk (burn_init 4
        (query_of [(''workers'', ''1''), (''mem_mb'', ''2'')]) new_writer))"
    with m_blk have l: "length (bytes b) = 1024 * 1024"
      and w: "\<forall>j < 1024 * 1024. 4096 dvd j \<longrightarrow> j \<in> set (written b)"
      by blast+
    have "(8192::nat) < 1024 * 1024" and "4096 dvd (8192::nat)"
      by simp_all
    with w have "8192 \<in> set (written b)" by blast
    with l show "length (bytes b) = 1048576 \<and> 8192 \<in> set (written b)"
      by simp
  qed
  from m_frm a t have d: "map_option (\<lambda>s. (length (tasks s), length (junk s))) (Some s1) =
      Some (1, 2)"
    by simp
  from b have "map (\<lambda>b. (length (bytes b), 8192 \<in> set (written b)))
      (junk (burn_init 4 (query_of [(''workers'', ''1''), (''mem_mb'', ''2'')]) new_writer)) =
      map (\<lambda>b. (1048576, True))
      (junk (burn_init 4 (query_of [(''workers'', ''1''), (''mem_mb'', ''2'')]) new_writer))"
    by (intro map_cong) simp_all
  also have "\<dots> = replicate 2 (1048576, True)"
    by (simp only: map_replicate_const a)
  also have "\<dots> = [(1048576, True), (1048576, True)]"
    by (simp add: numeral_2_eq_2)
  finally have c: "map (\<lambda>b. (length (bytes b), 8192 \<in> set (written b)))
      (junk (burn_init 4 (query_of [(''workers'', ''1''), (''mem_mb'', ''2'')]) new_writer)) =
      [(1048576, True), (1048576, True)]" .
  from a c d show ?thesis
    unfolding run by blast
qed

section \<open>Push answers like range\<close>

lemma List_Add_ok:
  assumes "fst (List_Add r key v) = None"
  shows "lists (snd (List_Add r key v)) = (lists r)(key := lists r key @ [v])"
  using assms by (auto simp: List_Add_def split: list.splits bool.splits)

lemma ListRangeHandler_Inr:
  assumes "fst (ListRangeHandler quote r w key) = Inr w'"
  shows "w' = Write (Header_Set w ''Content-Type'' ''application/json'')
           (MarshalIndent quote (lists r key))"
  using assms
  by (auto simp: ListRangeHandler_def List_GetAll_def split: list.splits bool.splits)

text \<open>
  C10. When the append of \<open>/rpush/{key}/{value}\<close> succeeds, the handler's result is
  the result of the handler of \<open>/lrange/{key}\<close> on the store after the append, in which
  the list of the key is the old list followed by the value and every other list is
  unchanged. So a response, when there is one, has the header
  \<open>Content-Type: application/json\<close> and, as its body, the indented JSON array of the old
  members followed by the value; on a writer to which nothing had been sent the status
  is 200.
\<close>

theorem rpush_responds_like_lrange:
  assumes "fst (List_Add r key v) = None"
  shows "ListPushHandler quote r w key v =
           ListRangeHandler quote (snd (List_Add r key v)) w key \<and>
         lists (snd (List_Add r key v)) key = lists r key @ [v] \<and>
         (\<forall>k. k \<noteq> key \<longrightarrow> lists (snd (List_Add r key v)) k = lists r k) \<and>
         (\<forall>w'. fst (ListPushHandler quote r w key v) = Inr w' \<longrightarrow>
            hdr w' ''Content-Type'' = Some ''application/json'' \<and>
            body w' = body w @ MarshalIndent quote (lists r key @ [v]) \<and>
            (status w = None \<longrightarrow>
               status w' = Some 200 \<and>
               sent_hdr w' ''Content-Type'' = Some ''application/json''))"
proof -
  obtain r' where r': "List_Add r key v = (None, r')"
    using assms by (cases "List_Add r key v") simp
  have a: "ListPushHandler quote r w key v = ListRangeHandler quote r' w key"
    by (simp add: ListPushHandler_def r')
  have l: "lists r' = (lists r)(key := lists r key @ [v])"
    using List_Add_ok [OF assms] r' by simp
  have b: "hdr w' ''Content-Type'' = Some ''application/json'' \<and>
      body w' = body w @ MarshalIndent quote (lists r key @ [v]) \<and>
      (status w = None \<longrightarrow>
         status w' = Some 200 \<and> sent_hdr w' ''Content-Type'' = Some ''application/json'')"
    if "fst (ListPushHandler quote r w key v) = Inr w'" for w'
  proof -
    from that a have "fst (ListRangeHandler quote r' w key) = Inr w'" by simp
    from ListRangeHandler_Inr [OF this] l show ?thesis
      by (simp add: Write_def WriteHeader_def Header_Set_def)
  qed
  from a l b show ?thesis by (simp add: r')
qed

theorem rpush_responds_like_lrange_witness:
  "map_sum id (\<lambda>w. (status w, sent_hdr w ''Content-Type'', body w))
     (fst (ListPushHandler (\<lambda>m. [CHR 0x22] @ m @ [CHR 0x22])
        \<lparr>lists = (\<lambda>k. [])(''guestbook'' := [''a'']), faults = []\<rparr> new_writer
        ''guestbook'' ''b'')) =
   Inr (Some 200, Some ''application/json'',
        ''['' @ [CHR 0x0A] @ ''  '' @ [CHR 0x22] @ ''a'' @ [CHR 0x22] @ '','' @ [CHR 0x0A] @
        ''  '' @ [CHR 0x22] @ ''b'' @ [CHR 0x22] @ [CHR 0x0A] @ '']'')"
proof -
  have ok: "fst (List_Add \<lparr>lists = (\<lambda>k. [])(''guestbook'' := [''a'']), faults = []\<rparr>
      ''guestbook'' ''b'') = None"
    by (simp add: List_Add_def)
  obtain w' where w': "fst (ListPushHandler (\<lambda>m. [CHR 0x22] @ m @ [CHR 0x22])
      \<lparr>lists = (\<lambda>k. [])(''guestbook'' := [''a'']), faults = []\<rparr> new_writer
      ''guestbook'' ''b'') = Inr w'"
    by (simp add: ListPushHandler_def List_Add_def ListRangeHandler_def List_GetAll_def)
  have n: "status new_writer = None" and bn: "body new_writer = []"
    by (simp_all add: new_writer_def)
  from rpush_responds_like_lrange [OF ok, of "\<lambda>m. [CHR 0x22] @ m @ [CHR 0x22]" new_writer] w' n
  have "status w' = Some 200 \<and> sent_hdr w' ''Content-Type'' = Some ''application/json'' \<and>
      body w' = body new_writer @ MarshalIndent (\<lambda>m. [CHR 0x22] @ m @ [CHR 0x22]) [''a'', ''b'']"
    by simp
  then show ?thesis
    unfolding w' by (simp add: bn MarshalIndent_def)
qed

section \<open>The handler can always return\<close>

lemma exec_Cons_Some:
  "step s e = Some s1 \<Longrightarrow> exec s1 es = Some s' \<Longrightarrow> exec s (e # es) = Some s'"
  by simp

lemma exec_append:
  "exec s (es @ fs) = (case exec s es of None \<Rightarrow> None | Some s1 \<Rightarrow> exec s1 fs)"
  by (induction es arbitrary: s) (simp_all split: option.splits)

lemma not_all_completed:
  "completed ts < length ts \<Longrightarrow> \<exists>k < length ts. ts ! k \<noteq> Completed"
proof (induction ts)
  case Nil
  then show ?case by simp
next
  case (Cons t ts)
  show ?case
  proof (cases "t = Completed")
    case True
    with Cons.prems have "completed ts < length ts" by (simp add: completed_def)
    from Cons.IH [OF this] obtain k where "k < length ts" and "ts ! k \<noteq> Completed"
      by blast
    then have "Suc k < length (t # ts)" and "(t # ts) ! Suc k \<noteq> Completed"
      by simp_all
    then show ?thesis by blast
  next
    case False
    then have "0 < length (t # ts)" and "(t # ts) ! 0 \<noteq> Completed"
      by simp_all
    then show ?thesis by blast
  qed
qed

lemma finish_waiting:
  "handler_inv s n \<Longrightarrow> pc s = Waiting i \<Longrightarrow> nat (workers (req s) - i) = m \<Longrightarrow>
   \<exists>es s'. exec s es = Some s' \<and> pc s' = Returned"
proof (induction m arbitrary: s n i)
  case 0
  then have "\<not> i < workers (req s)" by simp
  with "0.prems"(2) have "\<exists>s'. step s Handler = Some s' \<and> pc s' = Returned"
    by simp
  then obtain s' where "exec s [Handler] = Some s'" and "pc s' = Returned"
    by auto
  then show ?case by blast
next
  case (Suc m)
  then have lt: "i < workers (req s)" by simp
  from Suc.prems(1,2) have i0: "0 \<le> i"
    and len: "length (tasks s) = nat (workers (req s))"
    and cmp: "completed (tasks s) = nat i"
    by (simp_all add: handler_inv_def)
  from lt i0 len cmp have "completed (tasks s) < length (tasks s)" by simp
  from not_all_completed [OF this]
  obtain k where k: "k < length (tasks s)" and nc: "tasks s ! k \<noteq> Completed"
    by blast
  have "\<exists>ps s1 n1. exec s (ps @ [Rendezvous k]) = Some s1 \<and> handler_inv s1 n1 \<and>
      pc s1 = Waiting (i + 1) \<and> req s1 = req s"
  proof (cases "tasks s ! k")
    case (Running x)
    let ?s1 = "s\<lparr>parent_done := True\<rparr>"
    let ?s2 = "?s1\<lparr>tasks := (tasks s)[k := Sending]\<rparr>"
    let ?s3 = "?s2\<lparr>tasks := (tasks ?s2)[k := Completed], pc := Waiting (i + 1)\<rparr>"
    have a: "step s Cancel = Some ?s1" by simp
    have b: "step ?s1 (Worker k) = Some ?s2"
      using k Running by (simp add: ctx_done_def)
    have c: "step ?s2 (Rendezvous k) = Some ?s3"
      using k lt Suc.prems(2) by simp
    have "exec s ([Cancel, Worker k] @ [Rendezvous k]) = Some ?s3"
      using a b c by simp
    moreover have "handler_inv ?s3 (Suc n)"
      using step_handler_inv [OF c step_handler_inv [OF b step_handler_inv [OF a Suc.prems(1)]]]
      by (simp add: is_rendezvous_def)
    ultimately show ?thesis by (intro exI [of _ "[Cancel, Worker k]"] exI [of _ ?s3]
          exI [of _ "Suc n"]) simp
  next
    case Sending
    let ?s3 = "s\<lparr>tasks := (tasks s)[k := Completed], pc := Waiting (i + 1)\<rparr>"
    have c: "step s (Rendezvous k) = Some ?s3"
      using k lt Suc.prems(2) Sending by simp
    have "exec s ([] @ [Rendezvous k]) = Some ?s3"
      using c by simp
    moreover have "handler_inv ?s3 (Suc n)"
      using step_handler_inv [OF c Suc.prems(1)] by (simp add: is_rendezvous_def)
    ultimately show ?thesis by (intro exI [of _ "[]"] exI [of _ ?s3]
          exI [of _ "Suc n"]) simp
  next
    case Completed
    with nc show ?thesis by simp
  qed
  then obtain ps s1 n1 where run: "exec s (ps @ [Rendezvous k]) = Some s1"
    and inv: "handler_inv s1 n1" and p1: "pc s1 = Waiting (i + 1)" and r1: "req s1 = req s"
    by blast
  from Suc.prems(3) r1 have "nat (workers (req s1) - (i + 1)) = m" by simp
  from Suc.IH [OF inv p1 this] obtain es s' where fin: "exec s1 es = Some s'"
    and ret: "pc s' = Returned"
    by blast
  have "exec s ((ps @ [Rendezvous k]) @ es) = Some s'"
    using run fin by (simp only: exec_append [of s "ps @ [Rendezvous k]" es] option.case)
  with ret show ?case by blast
qed

lemma finish_spawning:
  "handler_inv s n \<Longrightarrow> pc s = Spawning i \<Longrightarrow> nat (workers (req s) - i) = m \<Longrightarrow>
   \<exists>es s'. exec s es = Some s' \<and> pc s' = Returned"
proof (induction m arbitrary: s n i)
  case 0
  then have nlt: "\<not> i < workers (req s)" by simp
  let ?s1 = "s\<lparr>pc := Waiting 0\<rparr>"
  from nlt "0.prems"(2) have a: "step s Handler = Some ?s1" by simp
  from step_handler_inv [OF a "0.prems"(1)] have "handler_inv ?s1 n"
    by (simp add: is_rendezvous_def)
  from finish_waiting [OF this, of 0] obtain es s' where "exec ?s1 es = Some s'"
    and ret: "pc s' = Returned"
    by auto
  with a have "exec s (Handler # es) = Some s'" by simp
  with ret show ?case by blast
next
  case (Suc m)
  then have lt: "i < workers (req s)" by simp
  let ?s1 = "s\<lparr>tasks := tasks s @ [Running (1 / 10000)], pc := Spawning (i + 1)\<rparr>"
  from lt Suc.prems(2) have a: "step s Handler = Some ?s1" by simp
  from step_handler_inv [OF a Suc.prems(1)] have inv: "handler_inv ?s1 n"
    by (simp add: is_rendezvous_def)
  from Suc.prems(3) have "nat (workers (req ?s1) - (i + 1)) = m" by simp
  from Suc.IH [OF inv _ this] obtain es s' where "exec ?s1 es = Some s'"
    and ret: "pc s' = Returned"
    by auto
  with a have "exec s (Handler # es) = Some s'" by simp
  with ret show ?case by blast
qed

text \<open>
  From every state a request can reach, some continuation brings the handler to its
  return: the wait loop cannot be left blocked for ever, since a worker that has not
  returned is running or sending, and a running worker comes to its send once the
  context is done.
\<close>

lemma burn_can_return:
  assumes "exec (burn_init numCPU q w) sched = Some s"
  shows "\<exists>es s'. exec s es = Some s' \<and> pc s' = Returned"
proof -
  have inv: "handler_inv s (length (filter is_rendezvous sched))"
    using exec_handler_inv [OF assms burn_init_handler_inv] by simp
  show ?thesis
  proof (cases "pc s")
    case (Spawning i)
    from finish_spawning [OF inv this] show ?thesis by blast
  next
    case (Waiting i)
    from finish_waiting [OF inv this] show ?thesis by blast
  next
    case Returned
    then have "exec s [] = Some s \<and> pc s = Returned" by simp
    then show ?thesis by blast
  qed
qed

end
